theory Spec2Isabelle
  imports Complex_Main "HOL-Library.Stream"
begin

unbundle bit_operations_syntax

section \<open>The (7,5) convolutional encoder\<close>

text \<open>
  Bits, metrics and table entries are Python (numpy \<open>int\<close>) integers and are modelled
  as \<open>int\<close>; trellis states and the decoder's input hypothesis \<open>u\<close> index the
  tables and are modelled as \<open>nat\<close>. With received bits in \<open>{0,1}\<close> no stored
  number exceeds \<open>10^9 + 2\<close>, far inside numpy's 64-bit range.
\<close>

text \<open>\<open>bin(x).count("1")\<close>: the number of one digits of the binary numeral of \<open>x\<close>.\<close>

fun bin_count1 :: "nat \<Rightarrow> nat" where
  "bin_count1 n = (if n = 0 then 0 else n mod 2 + bin_count1 (n div 2))"

declare bin_count1.simps [simp del]

definition bin_ones :: "int \<Rightarrow> int" where
  "bin_ones x = int (bin_count1 (nat \<bar>x\<bar>))"

definition g1 :: int where "g1 = 7"
definition g2 :: int where "g2 = 5"

text \<open>
  \<open>conv_encode_7_5\<close> (scripts/generate\_readme\_artifacts.py): the loop over
  \<open>bits\<close> with the three-bit shift register \<open>state\<close>; each input bit appends
  \<open>v1, v0\<close> to the flat output.
\<close>

definition enc_shift :: "int \<Rightarrow> int \<Rightarrow> int" where
  "enc_shift state b = (push_bit 1 state OR (b AND 1)) AND 7"

fun conv_encode_loop :: "int \<Rightarrow> int list \<Rightarrow> int list" where
  "conv_encode_loop state [] = []"
| "conv_encode_loop state (b # bits) =
     (let state' = enc_shift state b;
          v1 = bin_ones (state' AND g1) AND 1;
          v0 = bin_ones (state' AND g2) AND 1
      in v1 # v0 # conv_encode_loop state' bits)"

definition conv_encode_7_5 :: "int list \<Rightarrow> int list" where
  "conv_encode_7_5 bits = conv_encode_loop 0 bits"

text \<open>
  \<open>add_tail(bits, K)\<close>: \<open>bits\<close> followed by \<open>K - 1\<close> zeros. The source only
  calls it with \<open>K = 3\<close> (numpy raises for \<open>K = 0\<close>, which the model does not
  cover).
\<close>

definition K :: nat where "K = 3"

definition add_tail :: "int list \<Rightarrow> nat \<Rightarrow> int list" where
  "add_tail bits k = bits @ replicate (k - 1) 0"

text \<open>\<open>conv_ref\<close> (sim/test\_convenc\_smoke.py): registers \<open>d1, d0\<close>, pairs \<open>(y0, y1)\<close>.\<close>

fun conv_ref_loop :: "int \<Rightarrow> int \<Rightarrow> int list \<Rightarrow> (int \<times> int) list" where
  "conv_ref_loop d1 d0 [] = []"
| "conv_ref_loop d1 d0 (u # bits) =
     (let y0 = (u XOR d1 XOR d0) AND 1;
          y1 = (u XOR d0) AND 1
      in (y0, y1) # conv_ref_loop u d1 bits)"

definition conv_ref :: "int list \<Rightarrow> (int \<times> int) list" where
  "conv_ref bits = conv_ref_loop 0 0 bits"

text \<open>\<open>enc_7_5\<close> (sim/test\_viterbi\_sequence.py): registers \<open>s1, s0\<close>, pairs \<open>(v1, v0)\<close>.\<close>

fun enc_7_5_loop :: "int \<Rightarrow> int \<Rightarrow> int list \<Rightarrow> (int \<times> int) list" where
  "enc_7_5_loop s1 s0 [] = []"
| "enc_7_5_loop s1 s0 (u # u_bits) =
     (let v1 = u XOR s0 XOR s1;
          v0 = u XOR s1
      in (v1, v0) # enc_7_5_loop s0 u u_bits)"

definition enc_7_5 :: "int list \<Rightarrow> (int \<times> int) list" where
  "enc_7_5 u_bits = enc_7_5_loop 0 0 u_bits"

text \<open>
  The description of all three encoders in words: the window of the last three input
  bits (zeros before the start), the current bit lowest, and for each generator mask the
  parity of the window's masked one bits.
\<close>

definition past_input :: "int list \<Rightarrow> nat \<Rightarrow> nat \<Rightarrow> int" where
  "past_input bits k d = (if d \<le> k \<and> k - d < length bits then bits ! (k - d) else 0)"

definition window3 :: "int list \<Rightarrow> nat \<Rightarrow> int" where
  "window3 bits k = 4 * past_input bits k 2 + 2 * past_input bits k 1 + past_input bits k 0"

definition parity_masked :: "int \<Rightarrow> int \<Rightarrow> int" where
  "parity_masked w gen = bin_ones (w AND gen) mod 2"

definition spec_pair :: "int list \<Rightarrow> nat \<Rightarrow> int \<times> int" where
  "spec_pair bits k = (parity_masked (window3 bits k) 7, parity_masked (window3 bits k) 5)"

text \<open>The flat sequence that lists the components of each pair in order.\<close>

definition flat_pairs :: "(int \<times> int) list \<Rightarrow> int list" where
  "flat_pairs ps = concat (map (\<lambda>(a, b). [a, b]) ps)"

section \<open>The trellis tables\<close>

definition m_len :: nat where "m_len = K - 1"
definition NUM_STATES :: nat where "NUM_STATES = push_bit m_len 1"

text \<open>
  \<open>_precompute\<close>: the source fills two zero arrays entry by entry, for \<open>s\<close> in
  \<open>range(NUM_STATES)\<close> and \<open>u\<close> in \<open>(0, 1)\<close>; every entry is written once, so the
  tables are the lists of the written values.
\<close>

definition new_shift :: "nat \<Rightarrow> nat \<Rightarrow> int" where
  "new_shift s u = (push_bit 1 (int s) OR int u) AND (push_bit K 1 - 1)"

definition NEXT_STATE :: "nat list list" where
  "NEXT_STATE =
     map (\<lambda>s. map (\<lambda>u. (push_bit 1 s OR u) AND (push_bit (K - 1) 1 - 1)) [0, 1])
       [0..<NUM_STATES]"

definition OUT_BITS :: "int list list list" where
  "OUT_BITS =
     map (\<lambda>s. map (\<lambda>u. [bin_ones (new_shift s u AND g1) AND 1,
                         bin_ones (new_shift s u AND g2) AND 1]) [0, 1])
       [0..<NUM_STATES]"

section \<open>The hard-decision Viterbi decoder\<close>

text \<open>The sentinel \<open>INF = 10**9\<close> of the source (\<open>INF\<close> is reserved syntax here).\<close>

definition INF_metric :: int where "INF_metric = 10 ^ 9"

text \<open>The three tables \<open>pm\<close>, \<open>prev\<close>, \<open>prev_u\<close>, each with \<open>T + 1\<close> rows of \<open>NUM_STATES\<close> entries.\<close>

type_synonym tables = "int list list \<times> int list list \<times> int list list"

definition upd2 :: "'a list list \<Rightarrow> nat \<Rightarrow> nat \<Rightarrow> 'a \<Rightarrow> 'a list list" where
  "upd2 tb i j v = tb[i := (tb ! i)[j := v]]"

definition init_tables :: "nat \<Rightarrow> tables" where
  "init_tables T =
     (upd2 (replicate (T + 1) (replicate NUM_STATES INF_metric)) 0 0 0,
      replicate (T + 1) (replicate NUM_STATES (- 1)),
      replicate (T + 1) (replicate NUM_STATES (- 1)))"

text \<open>The body of the innermost loop, for one state \<open>s\<close> and one input bit \<open>u\<close>.\<close>

definition relax :: "nat \<Rightarrow> int \<Rightarrow> int \<Rightarrow> nat \<Rightarrow> nat \<Rightarrow> tables \<Rightarrow> tables" where
  "relax t r1 r0 s u tb =
     (case tb of (pm, prev, prev_u) \<Rightarrow>
        let ns = NEXT_STATE ! s ! u;
            v1 = OUT_BITS ! s ! u ! 0;
            v0 = OUT_BITS ! s ! u ! 1;
            bm = (v1 XOR r1) + (v0 XOR r0);
            cand = pm ! t ! s + bm
        in if cand < pm ! (t + 1) ! ns
           then (upd2 pm (t + 1) ns cand, upd2 prev (t + 1) ns (int s),
                 upd2 prev_u (t + 1) ns (int u))
           else tb)"

text \<open>The loop body for one state: \<open>continue\<close> when the state is unreachable, else \<open>u\<close> in \<open>(0, 1)\<close>.\<close>

definition visit_state :: "nat \<Rightarrow> int \<Rightarrow> int \<Rightarrow> nat \<Rightarrow> tables \<Rightarrow> tables" where
  "visit_state t r1 r0 s tb =
     (if fst tb ! t ! s \<ge> INF_metric then tb else fold (relax t r1 r0 s) [0, 1] tb)"

text \<open>The loop body for one time step \<open>t\<close>.\<close>

definition time_step :: "int list \<Rightarrow> nat \<Rightarrow> tables \<Rightarrow> tables" where
  "time_step rx_pairs t tb =
     (let r1 = rx_pairs ! (2 * t); r0 = rx_pairs ! (2 * t + 1)
      in fold (visit_state t r1 r0) [0..<NUM_STATES] tb)"

definition forward_pass :: "int list \<Rightarrow> nat \<Rightarrow> tables" where
  "forward_pass rx_pairs T = fold (time_step rx_pairs) [0..<T] (init_tables T)"

text \<open>\<open>np.argmin\<close>: the first index of the least entry.\<close>

fun argmin_from :: "nat \<Rightarrow> int \<Rightarrow> nat \<Rightarrow> int list \<Rightarrow> nat" where
  "argmin_from best bv i [] = best"
| "argmin_from best bv i (x # xs) =
     (if x < bv then argmin_from i x (i + 1) xs else argmin_from best bv (i + 1) xs)"

definition argmin :: "int list \<Rightarrow> nat" where
  "argmin xs = (case xs of [] \<Rightarrow> 0 | x # rest \<Rightarrow> argmin_from 0 x 1 rest)"

text \<open>
  The traceback loop, \<open>t\<close> from \<open>T\<close> down to \<open>1\<close>: the state and the output array
  \<open>uhat\<close> are carried along.
\<close>

definition back_step :: "int list list \<Rightarrow> int list list \<Rightarrow> nat \<Rightarrow> nat \<times> int list \<Rightarrow> nat \<times> int list" where
  "back_step prev prev_u t acc =
     (case acc of (s, uhat) \<Rightarrow>
        (if prev ! t ! s \<ge> 0 then nat (prev ! t ! s) else 0,
         uhat[t - 1 := prev_u ! t ! s]))"

definition num_pairs :: "int list \<Rightarrow> nat" where
  "num_pairs rx_pairs = length rx_pairs div 2"

definition viterbi_decode_hard_7_5 :: "int list \<Rightarrow> int list" where
  "viterbi_decode_hard_7_5 rx_pairs =
     (let T = num_pairs rx_pairs in
      case forward_pass rx_pairs T of (pm, prev, prev_u) \<Rightarrow>
        let s = argmin (pm ! T)
        in snd (fold (back_step prev prev_u) (rev [1..<T + 1]) (s, replicate T 0)))"


section \<open>The bit-flip channel and the comparison steps of the harness\<close>

text \<open>
  \<open>rng.random()\<close> returns a float in the half-open interval from 0 to 1 and advances
  the generator. A generator state is modelled by the stream of the draws it will
  return; the comparison \<open>rng.random() < p\<close> of two floats is exact, so the draws and
  \<open>p\<close> are taken as the reals they denote.
\<close>

typedef unit_draw = "{x::real. 0 \<le> x \<and> x < 1}"
  by (rule exI [of _ 0]) simp

type_synonym rng = "unit_draw stream"

definition rng_random :: "rng \<Rightarrow> real \<times> rng" where
  "rng_random g = (Rep_unit_draw (shd g), stl g)"

text \<open>
  \<open>flip_bit\<close> (sim/test\_ber\_sweep.py): \<open>b ^ 1 if rng.random() < p else b\<close>. The
  name \<open>flip_bit\<close> is taken by the bit operations of the library.
\<close>

definition flip_bit_rng :: "int \<Rightarrow> real \<Rightarrow> rng \<Rightarrow> int \<times> rng" where
  "flip_bit_rng b p g = (case rng_random g of (x, g') \<Rightarrow> (if x < p then b XOR 1 else b, g'))"

text \<open>
  The channel of the sweep:
  \<open>noisy = [(flip_bit(v1, p, rng), flip_bit(v0, p, rng)) for (v1, v0) in coded]\<close>.
\<close>

fun flip_channel :: "(int \<times> int) list \<Rightarrow> real \<Rightarrow> rng \<Rightarrow> (int \<times> int) list \<times> rng" where
  "flip_channel [] p g = ([], g)"
| "flip_channel ((v1, v0) # coded) p g =
     (case flip_bit_rng v1 p g of (n1, ga) \<Rightarrow>
      case flip_bit_rng v0 p ga of (n0, gb) \<Rightarrow>
      case flip_channel coded p gb of (noisy, gc) \<Rightarrow> ((n1, n0) # noisy, gc))"

text \<open>Python's \<open>xs[-n:]\<close>: the last \<open>n\<close> elements, all of \<open>xs\<close> when it is shorter or when \<open>n = 0\<close>.\<close>

definition py_suffix :: "nat \<Rightarrow> 'a list \<Rightarrow> 'a list" where
  "py_suffix n xs = (if n = 0 then xs else drop (length xs - n) xs)"

text \<open>\<open>sum(a != b for a, b in zip(recovered, payload))\<close>.\<close>

definition count_errors :: "int list \<Rightarrow> int list \<Rightarrow> nat" where
  "count_errors recovered payload = length (filter (\<lambda>(a, b). a \<noteq> b) (zip recovered payload))"

text \<open>The \<open>AssertionError\<close> of a sweep trial, with the numbers of its message (got, needed).\<close>

datatype harness_error = Not_enough_decided_bits nat nat

text \<open>
  Step 5 of a sweep trial of \<open>test_ber_sweep\<close>: from the decided bits and the payload
  to the trial's error count, or the exception.
\<close>

definition trial_compare :: "nat \<Rightarrow> int list \<Rightarrow> int list \<Rightarrow> harness_error + nat" where
  "trial_compare PAYLOAD_LEN decided payload =
     (let recovered = py_suffix PAYLOAD_LEN decided
      in if length recovered \<noteq> PAYLOAD_LEN
         then Inl (Not_enough_decided_bits (length recovered) PAYLOAD_LEN)
         else Inr (count_errors recovered payload))"

text \<open>The last lines of \<open>_one_pass_errors\<close> (the calibration pass): \<open>(errs, recovered_len)\<close>.\<close>

definition one_pass_compare :: "int list \<Rightarrow> int list \<Rightarrow> nat \<times> nat" where
  "one_pass_compare decided payload =
     (let recovered = py_suffix (length payload) decided
      in if length recovered \<noteq> length payload
         then (length payload, length recovered)
         else (count_errors recovered payload, length recovered))"



text \<open>Flipping the coded bit at position \<open>i\<close> of a flat sequence (\<open>coded[i] ^ 1\<close>).\<close>

definition flip_coded_bit :: "nat \<Rightarrow> int list \<Rightarrow> int list" where
  "flip_coded_bit i coded = coded[i := coded ! i XOR 1]"

section \<open>Auxiliary notions for the proofs\<close>

text \<open>
  One time step reads row \<open>t\<close> of \<open>pm\<close> and writes row \<open>t + 1\<close> of the three tables
  only. The following functions are the loop bodies of the decoder acting on that one
  row triple.
\<close>

type_synonym rows = "int list \<times> int list \<times> int list"

definition row_relax :: "int list \<Rightarrow> int \<Rightarrow> int \<Rightarrow> nat \<Rightarrow> nat \<Rightarrow> rows \<Rightarrow> rows" where
  "row_relax pmt r1 r0 s u rw =
     (case rw of (a, b, c) \<Rightarrow>
        let ns = NEXT_STATE ! s ! u;
            v1 = OUT_BITS ! s ! u ! 0;
            v0 = OUT_BITS ! s ! u ! 1;
            bm = (v1 XOR r1) + (v0 XOR r0);
            cand = pmt ! s + bm
        in if cand < a ! ns then (a[ns := cand], b[ns := int s], c[ns := int u]) else rw)"

definition row_visit :: "int list \<Rightarrow> int \<Rightarrow> int \<Rightarrow> nat \<Rightarrow> rows \<Rightarrow> rows" where
  "row_visit pmt r1 r0 s rw =
     (if pmt ! s \<ge> INF_metric then rw else fold (row_relax pmt r1 r0 s) [0, 1] rw)"

definition row_step :: "int list \<Rightarrow> int \<Rightarrow> int \<Rightarrow> rows \<Rightarrow> rows" where
  "row_step pmt r1 r0 rw = fold (row_visit pmt r1 r0) [0..<NUM_STATES] rw"

definition blank_rows :: rows where
  "blank_rows = (replicate NUM_STATES INF_metric, replicate NUM_STATES (- 1),
                 replicate NUM_STATES (- 1))"

definition rows_at :: "tables \<Rightarrow> nat \<Rightarrow> rows" where
  "rows_at tb k = (case tb of (pm, prev, prev_u) \<Rightarrow> (pm ! k, prev ! k, prev_u ! k))"

definition put_rows :: "tables \<Rightarrow> nat \<Rightarrow> rows \<Rightarrow> tables" where
  "put_rows tb k rw =
     (case tb of (pm, prev, prev_u) \<Rightarrow>
      case rw of (a, b, c) \<Rightarrow> (pm[k := a], prev[k := b], prev_u[k := c]))"

definition tables_len :: "nat \<Rightarrow> tables \<Rightarrow> bool" where
  "tables_len n tb = (case tb of (pm, prev, prev_u) \<Rightarrow>
     length pm = n \<and> length prev = n \<and> length prev_u = n)"

text \<open>The row triple after \<open>t\<close> time steps.\<close>

fun row_seq :: "int list \<Rightarrow> nat \<Rightarrow> rows" where
  "row_seq rx 0 = ((replicate NUM_STATES INF_metric)[0 := 0], replicate NUM_STATES (- 1),
                   replicate NUM_STATES (- 1))"
| "row_seq rx (Suc t) =
     row_step (fst (row_seq rx t)) (rx ! (2 * t)) (rx ! (2 * t + 1)) blank_rows"

text \<open>The trellis state of the encoder after the first \<open>k\<close> bits of \<open>bits\<close>.\<close>

fun tstate :: "int list \<Rightarrow> nat \<Rightarrow> nat" where
  "tstate bits 0 = 0"
| "tstate bits (Suc k) = NEXT_STATE ! tstate bits k ! nat (bits ! k)"

text \<open>
  A metric row seen from a state \<open>s\<close>: entry \<open>d\<close> is the metric of the state that
  differs from \<open>s\<close> by \<open>d\<close>. The code is linear, so along a transmitted path the rows
  seen from the encoder's state do not depend on the data.
\<close>

definition seen_from :: "nat \<Rightarrow> int list \<Rightarrow> int list" where
  "seen_from s row = map (\<lambda>d. row ! (d XOR s)) [0, 1, 2, 3]"

definition rows_clean :: "int list list" where
  "rows_clean = [[0, INF_metric, INF_metric, INF_metric], [0, 2, INF_metric, INF_metric],
                 [0, 2, 3, 3]]"

definition rows_hit :: "int list list" where
  "rows_hit = [[1, 1, 2, 3], [1, 1, 2, 4], [1, 1, 3, 2], [1, 1, 4, 2],
               [1, 1, INF_metric, INF_metric], [1, 2, 2, 2], [1, 2, 3, 3], [1, 3, 2, 2],
               [1, 3, 3, 3], [1, 3, 4, 4]]"

text \<open>
  One decoder step from the row that looks like \<open>v\<close> from state \<open>s\<close>, on the symbol
  that input \<open>u\<close> produces with the error pattern \<open>(e1, e0)\<close> added: the new row
  looks like a member of \<open>target\<close> from the next state, and the recorded predecessor of
  the next state is \<open>(s, u)\<close>.
\<close>

definition step_ok :: "int list list \<Rightarrow> int list \<Rightarrow> nat \<Rightarrow> nat \<Rightarrow> int \<times> int \<Rightarrow> bool" where
  "step_ok target v s u e =
     (case row_step (seen_from s v) (OUT_BITS ! s ! u ! 0 XOR fst e) (OUT_BITS ! s ! u ! 1 XOR snd e)
             blank_rows of
        (a, b, c) \<Rightarrow>
          a \<in> set (map (seen_from (NEXT_STATE ! s ! u)) target) \<and>
          b ! (NEXT_STATE ! s ! u) = int s \<and> c ! (NEXT_STATE ! s ! u) = int u)"

definition all_steps_ok :: "int list list \<Rightarrow> int list list \<Rightarrow> (int \<times> int) list \<Rightarrow> bool" where
  "all_steps_ok source target es =
     list_all (\<lambda>v. list_all (\<lambda>s. list_all (\<lambda>u. list_all (step_ok target v s u) es) [0, 1])
       [0, 1, 2, 3]) source"

text \<open>
  The metric row \<open>row\<close> is one of the rows that can arise along a transmitted path at
  encoder state \<open>s\<close>: an error-free one, or, when \<open>hit\<close>, possibly one after a single
  flipped bit.
\<close>

definition tracked :: "bool \<Rightarrow> nat \<Rightarrow> int list \<Rightarrow> bool" where
  "tracked hit s row =
     (row \<in> set (map (seen_from s) (if hit then rows_clean @ rows_hit else rows_clean)))"

text \<open>
  The received sequence \<open>rx\<close> is the encoding of \<open>bits\<close> with the error pattern
  \<open>e k\<close> added to the \<open>k\<close>-th symbol, where at most the symbol \<open>j\<close> carries an error,
  and that in one of its two bits only.
\<close>

definition sent_with :: "int list \<Rightarrow> nat \<Rightarrow> (nat \<Rightarrow> int \<times> int) \<Rightarrow> int list \<Rightarrow> bool" where
  "sent_with bits j e rx =
     (\<forall>k<length bits.
        rx ! (2 * k) = OUT_BITS ! tstate bits k ! nat (bits ! k) ! 0 XOR fst (e k) \<and>
        rx ! (2 * k + 1) = OUT_BITS ! tstate bits k ! nat (bits ! k) ! 1 XOR snd (e k) \<and>
        (e k = (0, 0) \<or> (k = j \<and> e k \<in> {(1, 0), (0, 1)})))"

text \<open>
  The order in which one time step visits the pairs of a state and an input bit: states
  ascending, and for each state bit 0 before bit 1.
\<close>

definition visit_order :: "(nat \<times> nat) list" where
  "visit_order = concat (map (\<lambda>s. map (\<lambda>u. (s, u)) [0, 1]) [0..<NUM_STATES])"

text \<open>The candidate metric \<open>cand\<close> that the pair \<open>(s, u)\<close> offers to its next state.\<close>

definition cand_metric :: "int list \<Rightarrow> int \<Rightarrow> int \<Rightarrow> nat \<times> nat \<Rightarrow> int" where
  "cand_metric pmt r1 r0 c =
     (case c of (s, u) \<Rightarrow>
        pmt ! s + ((OUT_BITS ! s ! u ! 0 XOR r1) + (OUT_BITS ! s ! u ! 1 XOR r0)))"

text \<open>
  The pairs that offer a candidate to the next state \<open>ns\<close>, in visiting order: the state
  is not skipped as unreachable, and the pair leads to \<open>ns\<close>.
\<close>

definition candidates :: "int list \<Rightarrow> nat \<Rightarrow> (nat \<times> nat) list" where
  "candidates pmt ns =
     filter (\<lambda>(s, u). pmt ! s < INF_metric \<and> NEXT_STATE ! s ! u = ns) visit_order"

text \<open>A running minimum that is replaced only by a strictly smaller key, with a tag.\<close>

definition keep_less :: "('c \<Rightarrow> int) \<Rightarrow> ('c \<Rightarrow> 'x) \<Rightarrow> 'c \<Rightarrow> int \<times> 'x \<Rightarrow> int \<times> 'x" where
  "keep_less f g c acc = (if f c < fst acc then (f c, g c) else acc)"

text \<open>The entries of a row triple for one state, and the pair \<open>(s, u)\<close> as stored.\<close>

definition entry :: "nat \<Rightarrow> rows \<Rightarrow> int \<times> int \<times> int" where
  "entry ns rw = (case rw of (a, b, c) \<Rightarrow> (a ! ns, b ! ns, c ! ns))"

definition stored_pair :: "nat \<times> nat \<Rightarrow> int \<times> int" where
  "stored_pair c = (int (fst c), int (snd c))"

definition rows_len :: "nat \<Rightarrow> rows \<Rightarrow> bool" where
  "rows_len n rw = (case rw of (a, b, c) \<Rightarrow> length a = n \<and> length b = n \<and> length c = n)"

text \<open>Every entry of a metric row is the sentinel or lies between 0 and the bound \<open>B\<close>.\<close>

definition row_bounded :: "int \<Rightarrow> int list \<Rightarrow> bool" where
  "row_bounded B row = (\<forall>s<4. row ! s = INF_metric \<or> (0 \<le> row ! s \<and> row ! s \<le> B))"

section \<open>The three reference encoders agree\<close>

lemma bin_ones_vals:
  "bin_ones 0 = 0" "bin_ones 1 = 1" "bin_ones 2 = 1" "bin_ones 3 = 2"
  "bin_ones 4 = 1" "bin_ones 5 = 2" "bin_ones 6 = 2" "bin_ones 7 = 3"
  by (simp_all add: bin_ones_def bin_count1.simps)

lemma window_pair:
  assumes "a \<in> {0, 1::int}" "b \<in> {0, 1}" "c \<in> {0, 1}"
  shows "parity_masked (4 * a + 2 * b + c) 7 = c XOR b XOR a"
    and "parity_masked (4 * a + 2 * b + c) 5 = c XOR a"
  using assms by (auto simp: parity_masked_def bin_ones_vals)

lemma past_input_Cons: "d \<le> k \<Longrightarrow> past_input (x # xs) (Suc k) d = past_input xs k d"
  by (simp add: past_input_def Suc_diff_le)

lemma window3_Cons: "2 \<le> k \<Longrightarrow> window3 (x # xs) (Suc k) = window3 xs k"
  by (simp add: window3_def past_input_Cons)

lemma enc_7_5_loop_length: "length (enc_7_5_loop s1 s0 bits) = length bits"
  by (induction bits arbitrary: s1 s0) (simp_all add: Let_def)

lemma enc_7_5_loop_nth:
  "s1 \<in> {0, 1} \<Longrightarrow> s0 \<in> {0, 1} \<Longrightarrow> set bits \<subseteq> {0, 1} \<Longrightarrow> k < length bits \<Longrightarrow>
   enc_7_5_loop s1 s0 bits ! k = spec_pair (s1 # s0 # bits) (k + 2)"
proof (induction bits arbitrary: s1 s0 k)
  case Nil
  then show ?case by simp
next
  case (Cons u bits)
  show ?case
  proof (cases k)
    case 0
    have "window3 (s1 # s0 # u # bits) (Suc (Suc 0)) = 4 * s1 + 2 * s0 + u"
      by (simp add: window3_def past_input_def)
    with Cons.prems 0 show ?thesis
      by (simp add: spec_pair_def window_pair Let_def)
  next
    case (Suc j)
    with Cons.prems have "enc_7_5_loop s0 u bits ! j = spec_pair (s0 # u # bits) (j + 2)"
      by (intro Cons.IH) auto
    with Suc show ?thesis
      by (simp add: spec_pair_def window3_Cons Let_def)
  qed
qed

lemma spec_pair_zero_prefix:
  "k < length bits \<Longrightarrow> spec_pair (0 # 0 # bits) (k + 2) = spec_pair bits k"
  apply (simp add: spec_pair_def window3_def past_input_def)
  apply (auto simp: nth_Cons split: nat.splits)
  done

lemma enc_7_5_nth:
  "set bits \<subseteq> {0, 1} \<Longrightarrow> k < length bits \<Longrightarrow> enc_7_5 bits ! k = spec_pair bits k"
  using enc_7_5_loop_nth [of 0 0 bits k] spec_pair_zero_prefix [of k bits]
  by (simp add: enc_7_5_def)

lemma conv_ref_loop_enc:
  "d1 \<in> {0, 1} \<Longrightarrow> d0 \<in> {0, 1} \<Longrightarrow> set bits \<subseteq> {0, 1} \<Longrightarrow>
   conv_ref_loop d1 d0 bits = enc_7_5_loop d0 d1 bits"
proof (induction bits arbitrary: d1 d0)
  case Nil
  then show ?case by simp
next
  case (Cons u bits)
  from Cons.prems have u: "u \<in> {0, 1}" and rest: "set bits \<subseteq> {0, 1}" by auto
  have tl: "conv_ref_loop u d1 bits = enc_7_5_loop d1 u bits"
    using Cons.IH [OF u Cons.prems(1) rest] .
  from u Cons.prems(1,2)
  have "(u XOR d1 XOR d0) AND 1 = u XOR d1 XOR d0" "(u XOR d0) AND 1 = u XOR d0"
    by auto
  with tl show ?case by (simp add: Let_def)
qed

lemma conv_ref_enc: "set bits \<subseteq> {0, 1} \<Longrightarrow> conv_ref bits = enc_7_5 bits"
  by (simp add: conv_ref_def enc_7_5_def conv_ref_loop_enc)

lemma enc_shift_bits:
  "a \<in> {0, 1} \<Longrightarrow> s1 \<in> {0, 1} \<Longrightarrow> s0 \<in> {0, 1} \<Longrightarrow> u \<in> {0, 1} \<Longrightarrow>
   enc_shift (4 * a + 2 * s1 + s0) u = 4 * s1 + 2 * s0 + u"
  by (auto simp: enc_shift_def)

lemma conv_encode_loop_enc:
  "a \<in> {0, 1} \<Longrightarrow> s1 \<in> {0, 1} \<Longrightarrow> s0 \<in> {0, 1} \<Longrightarrow> set bits \<subseteq> {0, 1} \<Longrightarrow>
   conv_encode_loop (4 * a + 2 * s1 + s0) bits = flat_pairs (enc_7_5_loop s1 s0 bits)"
proof (induction bits arbitrary: a s1 s0)
  case Nil
  then show ?case by (simp add: flat_pairs_def)
next
  case (Cons u bits)
  from Cons.prems have u: "u \<in> {0, 1}" and rest: "set bits \<subseteq> {0, 1}" by auto
  have sh: "enc_shift (4 * a + 2 * s1 + s0) u = 4 * s1 + 2 * s0 + u"
    using Cons.prems(1-3) u by (rule enc_shift_bits)
  have tl: "conv_encode_loop (4 * s1 + 2 * s0 + u) bits = flat_pairs (enc_7_5_loop s0 u bits)"
    using Cons.IH [OF Cons.prems(2,3) u rest] .
  have v1: "bin_ones ((4 * s1 + 2 * s0 + u) AND g1) AND 1 = u XOR s0 XOR s1"
    using Cons.prems(2,3) u by (auto simp: g1_def bin_ones_vals)
  have v0: "bin_ones ((4 * s1 + 2 * s0 + u) AND g2) AND 1 = u XOR s1"
    using Cons.prems(2,3) u by (auto simp: g2_def bin_ones_vals)
  show ?case
    by (simp add: Let_def sh tl v1 v0 flat_pairs_def)
qed

lemma conv_encode_enc: "set bits \<subseteq> {0, 1} \<Longrightarrow> conv_encode_7_5 bits = flat_pairs (enc_7_5 bits)"
  using conv_encode_loop_enc [of 0 0 0 bits] by (simp add: conv_encode_7_5_def enc_7_5_def)

lemma flat_pairs_length: "length (flat_pairs ps) = 2 * length ps"
  by (induction ps) (auto simp: flat_pairs_def)

lemma flat_pairs_nth:
  "k < length ps \<Longrightarrow>
   flat_pairs ps ! (2 * k) = fst (ps ! k) \<and> flat_pairs ps ! (2 * k + 1) = snd (ps ! k)"
proof (induction ps arbitrary: k)
  case Nil
  then show ?case by simp
next
  case (Cons p ps)
  obtain a b where p: "p = (a, b)" by (cases p)
  show ?case
  proof (cases k)
    case 0
    then show ?thesis by (simp add: flat_pairs_def p)
  next
    case (Suc j)
    with Cons.prems have "j < length ps" by simp
    from Cons.IH [OF this] Suc show ?thesis
      by (simp add: flat_pairs_def p)
  qed
qed

lemma enc_7_5_length: "length (enc_7_5 bits) = length bits"
  by (simp add: enc_7_5_def enc_7_5_loop_length)

lemma conv_encode_length: "length (conv_encode_loop st bits) = 2 * length bits"
  by (induction bits arbitrary: st) (simp_all add: Let_def)

lemma conv_ref_length: "length (conv_ref_loop d1 d0 bits) = length bits"
  by (induction bits arbitrary: d1 d0) (simp_all add: Let_def)

text \<open>
  C10. For every bit sequence and every position \<open>k\<close> in it, the \<open>k\<close>-th pair of
  \<open>conv_ref\<close> equals the \<open>k\<close>-th pair of \<open>enc_7_5\<close> and the pair of entries
  \<open>2k\<close>, \<open>2k + 1\<close> of \<open>conv_encode_7_5\<close>, and all three are the parities of the last
  three input bits masked by \<open>0b111\<close> (first component) and \<open>0b101\<close> (second); the
  outputs have one pair, or two entries, for each input bit.
\<close>

theorem encoders_agree:
  assumes "set bits \<subseteq> {0, 1}" and "k < length bits"
  shows "conv_ref bits ! k = spec_pair bits k \<and>
         enc_7_5 bits ! k = spec_pair bits k \<and>
         (conv_encode_7_5 bits ! (2 * k), conv_encode_7_5 bits ! (2 * k + 1)) = spec_pair bits k \<and>
         length (conv_ref bits) = length bits \<and>
         length (enc_7_5 bits) = length bits \<and>
         length (conv_encode_7_5 bits) = 2 * length bits"
proof -
  have e: "enc_7_5 bits ! k = spec_pair bits k"
    using assms by (rule enc_7_5_nth)
  have r: "conv_ref bits = enc_7_5 bits"
    using assms(1) by (rule conv_ref_enc)
  have c: "conv_encode_7_5 bits = flat_pairs (enc_7_5 bits)"
    using assms(1) by (rule conv_encode_enc)
  have k: "k < length (enc_7_5 bits)"
    using assms(2) by (simp add: enc_7_5_length)
  have p: "(conv_encode_7_5 bits ! (2 * k), conv_encode_7_5 bits ! (2 * k + 1)) = enc_7_5 bits ! k"
    using flat_pairs_nth [OF k] by (simp add: c)
  have l: "length (conv_encode_7_5 bits) = 2 * length bits"
    by (simp add: conv_encode_7_5_def conv_encode_length)
  have lr: "length (conv_ref bits) = length bits"
    by (simp add: conv_ref_def conv_ref_length)
  from e r p l lr show ?thesis
    by (simp only: enc_7_5_length simp_thms)
qed

theorem encoders_agree_witness:
  "set [1, 0, 1, 1, 0, 0, 1] \<subseteq> {0, 1::int} \<and> (3::nat) < length [1, 0, 1, 1, 0, 0, 1::int] \<and>
   conv_ref [1, 0, 1, 1, 0, 0, 1] ! 3 = spec_pair [1, 0, 1, 1, 0, 0, 1] 3 \<and>
   enc_7_5 [1, 0, 1, 1, 0, 0, 1] ! 3 = spec_pair [1, 0, 1, 1, 0, 0, 1] 3 \<and>
   (conv_encode_7_5 [1, 0, 1, 1, 0, 0, 1] ! (2 * 3), conv_encode_7_5 [1, 0, 1, 1, 0, 0, 1] ! (2 * 3 + 1))
     = spec_pair [1, 0, 1, 1, 0, 0, 1] 3"
  using encoders_agree [of "[1, 0, 1, 1, 0, 0, 1]" 3] by simp

section \<open>The values of the trellis tables\<close>

lemma NUM_STATES_eq: "NUM_STATES = 4"
  by (simp add: NUM_STATES_def m_len_def K_def)

lemma upt4: "[0..<4] = [0, 1, 2, 3::nat]"
  by (simp add: upt_rec)

lemma NEXT_STATE_eq: "NEXT_STATE = [[0, 1], [2, 3], [0, 1], [2, 3]]"
  by (simp add: NEXT_STATE_def NUM_STATES_eq upt4 K_def)

lemma OUT_BITS_eq:
  "OUT_BITS = [[[0, 0], [1, 1]], [[1, 0], [0, 1]], [[1, 1], [0, 0]], [[0, 1], [1, 0]]]"
  by (simp add: OUT_BITS_def NUM_STATES_eq upt4 K_def new_shift_def g1_def g2_def bin_ones_vals)

section \<open>A time step of the decoder rewrites one row\<close>

lemma tables_len_put [simp]: "tables_len n (put_rows tb k rw) = tables_len n tb"
  by (cases tb; cases rw) (simp add: tables_len_def put_rows_def)

lemma rows_at_put_same: "tables_len n tb \<Longrightarrow> k < n \<Longrightarrow> rows_at (put_rows tb k rw) k = rw"
  by (cases tb; cases rw) (simp add: tables_len_def put_rows_def rows_at_def)

lemma rows_at_put_other: "j \<noteq> k \<Longrightarrow> rows_at (put_rows tb k rw) j = rows_at tb j"
  by (cases tb; cases rw) (simp add: put_rows_def rows_at_def)

lemma fst_put_other: "t \<noteq> k \<Longrightarrow> fst (put_rows tb k rw) ! t = fst tb ! t"
  by (cases tb; cases rw) (simp add: put_rows_def)

lemma fst_rows_at: "fst (rows_at tb k) = fst tb ! k"
  by (cases tb) (simp add: rows_at_def)

lemma put_put: "put_rows (put_rows tb k rw) k rw' = put_rows tb k rw'"
  by (cases tb; cases rw; cases rw') (simp add: put_rows_def)

lemma put_rows_id: "put_rows tb k (rows_at tb k) = tb"
  by (cases tb) (simp add: put_rows_def rows_at_def)

lemma fold_rows:
  assumes step: "\<And>x tb. tables_len n tb \<Longrightarrow>
      f x tb = put_rows tb k (g (fst tb ! t) x (rows_at tb k))"
    and len: "tables_len n tb" and k: "k < n" and tk: "t \<noteq> k"
  shows "fold f xs tb = put_rows tb k (fold (g (fst tb ! t)) xs (rows_at tb k))"
  using len
proof (induction xs arbitrary: tb)
  case Nil
  show ?case by (simp add: put_rows_id)
next
  case (Cons x xs)
  let ?r = "g (fst tb ! t) x (rows_at tb k)"
  let ?tb = "put_rows tb k ?r"
  have l: "tables_len n ?tb" using Cons.prems by simp
  have "fold f (x # xs) tb = fold f xs ?tb"
    by (simp add: step [OF Cons.prems])
  also have "\<dots> = put_rows ?tb k (fold (g (fst ?tb ! t)) xs (rows_at ?tb k))"
    by (rule Cons.IH [OF l])
  also have "\<dots> = put_rows tb k (fold (g (fst tb ! t)) xs ?r)"
    by (simp add: put_put fst_put_other [OF tk] rows_at_put_same [OF Cons.prems k])
  finally show ?case by simp
qed

lemma relax_rows:
  assumes "tables_len n tb"
  shows "relax t r1 r0 s u tb =
         put_rows tb (t + 1) (row_relax (fst tb ! t) r1 r0 s u (rows_at tb (t + 1)))"
  by (cases tb) (simp add: relax_def row_relax_def put_rows_def rows_at_def upd2_def Let_def)

lemma visit_state_rows:
  assumes "tables_len n tb" "t + 1 < n"
  shows "visit_state t r1 r0 s tb =
         put_rows tb (t + 1) (row_visit (fst tb ! t) r1 r0 s (rows_at tb (t + 1)))"
proof -
  have "fold (relax t r1 r0 s) [0, 1] tb =
        put_rows tb (t + 1) (fold (\<lambda>u. row_relax (fst tb ! t) r1 r0 s u) [0, 1] (rows_at tb (t + 1)))"
    using assms
    by (intro fold_rows [where f = "relax t r1 r0 s" and g = "\<lambda>pmt u. row_relax pmt r1 r0 s u" and n = n])
       (simp_all add: relax_rows)
  then show ?thesis
    by (simp add: visit_state_def row_visit_def put_rows_id)
qed

lemma time_step_rows:
  assumes "tables_len n tb" "t + 1 < n"
  shows "time_step rx t tb =
         put_rows tb (t + 1)
           (row_step (fst tb ! t) (rx ! (2 * t)) (rx ! (2 * t + 1)) (rows_at tb (t + 1)))"
proof -
  have "fold (visit_state t (rx ! (2 * t)) (rx ! (2 * t + 1))) [0..<NUM_STATES] tb =
        put_rows tb (t + 1)
          (fold (\<lambda>s. row_visit (fst tb ! t) (rx ! (2 * t)) (rx ! (2 * t + 1)) s) [0..<NUM_STATES]
             (rows_at tb (t + 1)))"
    using assms
    by (intro fold_rows [where f = "visit_state t (rx ! (2 * t)) (rx ! (2 * t + 1))"
          and g = "\<lambda>pmt s. row_visit pmt (rx ! (2 * t)) (rx ! (2 * t + 1)) s" and n = n])
       (simp_all add: visit_state_rows)
  then show ?thesis
    by (simp add: time_step_def row_step_def Let_def)
qed

lemma init_tables_len: "tables_len (T + 1) (init_tables T)"
  by (simp add: tables_len_def init_tables_def upd2_def)

lemma init_rows_0: "rows_at (init_tables T) 0 = row_seq rx 0"
  by (simp add: rows_at_def init_tables_def upd2_def)

lemma init_rows_later: "0 < j \<Longrightarrow> j \<le> T \<Longrightarrow> rows_at (init_tables T) j = blank_rows"
  by (simp add: rows_at_def init_tables_def upd2_def blank_rows_def)

lemma forward_prefix:
  "k \<le> T \<Longrightarrow>
   tables_len (T + 1) (fold (time_step rx) [0..<k] (init_tables T)) \<and>
   (\<forall>j\<le>k. rows_at (fold (time_step rx) [0..<k] (init_tables T)) j = row_seq rx j) \<and>
   (\<forall>j. k < j \<and> j \<le> T \<longrightarrow> rows_at (fold (time_step rx) [0..<k] (init_tables T)) j = blank_rows)"
proof (induction k)
  case 0
  show ?case
    using init_tables_len [of T] init_rows_0 [of T rx] init_rows_later [of _ T]
    by auto
next
  case (Suc k)
  let ?tb = "fold (time_step rx) [0..<k] (init_tables T)"
  from Suc have len: "tables_len (T + 1) ?tb"
    and sofar: "\<And>j. j \<le> k \<Longrightarrow> rows_at ?tb j = row_seq rx j"
    and todo: "\<And>j. k < j \<Longrightarrow> j \<le> T \<Longrightarrow> rows_at ?tb j = blank_rows"
    by auto
  from Suc.prems have kT: "k + 1 < T + 1" by simp
  have pk: "fst ?tb ! k = fst (row_seq rx k)"
    using sofar [of k] fst_rows_at [of ?tb k] by simp
  have nxt: "rows_at ?tb (k + 1) = blank_rows"
    using todo [of "k + 1"] Suc.prems by simp
  have st: "fold (time_step rx) [0..<Suc k] (init_tables T) = put_rows ?tb (k + 1) (row_seq rx (Suc k))"
    using nxt by (simp add: time_step_rows [OF len kT] pk)
  show ?case
    unfolding st
  proof (intro conjI allI impI)
    show "tables_len (T + 1) (put_rows ?tb (k + 1) (row_seq rx (Suc k)))"
      using len by simp
  next
    fix j assume "j \<le> Suc k"
    then show "rows_at (put_rows ?tb (k + 1) (row_seq rx (Suc k))) j = row_seq rx j"
      using sofar [of j] rows_at_put_same [OF len kT] rows_at_put_other [of j "k + 1"]
      by (cases "j = k + 1") auto
  next
    fix j assume "Suc k < j \<and> j \<le> T"
    then show "rows_at (put_rows ?tb (k + 1) (row_seq rx (Suc k))) j = blank_rows"
      using todo [of j] rows_at_put_other [of j "k + 1"] by auto
  qed
qed

lemma forward_pass_rows:
  "j \<le> T \<Longrightarrow> rows_at (forward_pass rx T) j = row_seq rx j"
  using forward_prefix [of T T rx] by (simp add: forward_pass_def)


section \<open>The traceback follows recorded predecessors\<close>

lemma traceback_path:
  assumes "\<And>t. 1 \<le> t \<Longrightarrow> t \<le> k \<Longrightarrow>
             prev ! t ! path t = int (path (t - 1)) \<and> prev_u ! t ! path t = us (t - 1)"
    and "k \<le> length uhat"
  shows "fold (back_step prev prev_u) (rev [1..<k + 1]) (path k, uhat) =
         (path 0, map us [0..<k] @ drop k uhat)"
  using assms
proof (induction k arbitrary: uhat)
  case 0
  then show ?case by simp
next
  case (Suc k)
  have here: "prev ! Suc k ! path (Suc k) = int (path k)" "prev_u ! Suc k ! path (Suc k) = us k"
    using Suc.prems(1) [of "Suc k"] by simp_all
  have bs: "back_step prev prev_u (Suc k) (path (Suc k), uhat) = (path k, uhat[k := us k])"
    by (simp add: back_step_def here)
  have "fold (back_step prev prev_u) (rev [1..<Suc k + 1]) (path (Suc k), uhat) =
        fold (back_step prev prev_u) (rev [1..<k + 1]) (path k, uhat[k := us k])"
    by (simp add: bs)
  also have "\<dots> = (path 0, map us [0..<k] @ drop k (uhat[k := us k]))"
    using Suc.prems by (intro Suc.IH) simp_all
  also have "drop k (uhat[k := us k]) = us k # drop (Suc k) uhat"
    using Suc.prems(2) by (simp add: Cons_nth_drop_Suc [symmetric] upd_conv_take_nth_drop)
  finally show ?case by simp
qed



lemma decode_along_path:
  assumes T: "T = num_pairs rx"
    and links: "\<And>t. 1 \<le> t \<Longrightarrow> t \<le> T \<Longrightarrow>
        fst (snd (row_seq rx t)) ! path t = int (path (t - 1)) \<and>
        snd (snd (row_seq rx t)) ! path t = us (t - 1)"
    and final: "argmin (fst (row_seq rx T)) = path T"
  shows "viterbi_decode_hard_7_5 rx = map us [0..<T]"
proof -
  obtain pm prev prev_u where fp: "forward_pass rx T = (pm, prev, prev_u)"
    by (cases "forward_pass rx T")
  have rows: "\<And>t. t \<le> T \<Longrightarrow> row_seq rx t = (pm ! t, prev ! t, prev_u ! t)"
    using forward_pass_rows [of _ T rx] by (simp add: fp rows_at_def)
  have a: "argmin (pm ! T) = path T"
    using final rows [of T] by simp
  have l: "\<And>t. 1 \<le> t \<Longrightarrow> t \<le> T \<Longrightarrow>
      prev ! t ! path t = int (path (t - 1)) \<and> prev_u ! t ! path t = us (t - 1)"
    using links rows by simp
  have "fold (back_step prev prev_u) (rev [1..<T + 1]) (path T, replicate T 0) =
        (path 0, map us [0..<T] @ drop T (replicate T 0))"
    by (rule traceback_path [OF l]) simp_all
  moreover have "viterbi_decode_hard_7_5 rx =
        snd (fold (back_step prev prev_u) (rev [1..<T + 1]) (argmin (pm ! T), replicate T 0))"
    unfolding viterbi_decode_hard_7_5_def Let_def T [symmetric] fp by (simp only: prod.case)
  ultimately show ?thesis
    by (simp only: a snd_conv drop_replicate diff_self_eq_0 replicate_0 append_Nil2)
qed

section \<open>The encoder walks the trellis\<close>

lemma bits_nth: "set bits \<subseteq> {0, 1::int} \<Longrightarrow> i < length bits \<Longrightarrow> bits ! i \<in> {0, 1}"
  using nth_mem [of i bits] by blast

lemma past_input_bit: "set bits \<subseteq> {0, 1} \<Longrightarrow> past_input bits k d \<in> {0, 1}"
  using bits_nth [of bits "k - d"] by (simp add: past_input_def)

lemma trellis_edge:
  assumes "a \<in> {0, 1::int}" "b \<in> {0, 1}" "u \<in> {0, 1}"
  shows "NEXT_STATE ! nat (2 * a + b) ! nat u = nat (2 * b + u)"
    and "OUT_BITS ! nat (2 * a + b) ! nat u ! 0 = parity_masked (4 * a + 2 * b + u) 7"
    and "OUT_BITS ! nat (2 * a + b) ! nat u ! 1 = parity_masked (4 * a + 2 * b + u) 5"
  using assms by (auto simp: NEXT_STATE_eq OUT_BITS_eq parity_masked_def bin_ones_vals)

lemma past_input_Suc: "past_input bits (Suc k) (Suc d) = past_input bits k d"
  by (simp add: past_input_def)

lemma tstate_window:
  "set bits \<subseteq> {0, 1} \<Longrightarrow> k \<le> length bits \<Longrightarrow>
   tstate bits k = nat (2 * past_input bits k 2 + past_input bits k 1)"
proof (induction k)
  case 0
  show ?case by (simp add: past_input_def)
next
  case (Suc k)
  let ?a = "past_input bits k 2" and ?b = "past_input bits k 1"
  have a: "?a \<in> {0, 1}" and b: "?b \<in> {0, 1}"
    using Suc.prems(1) by (rule past_input_bit)+
  have u: "bits ! k \<in> {0, 1}"
    using Suc.prems by (intro bits_nth) simp_all
  have "tstate bits (Suc k) = NEXT_STATE ! nat (2 * ?a + ?b) ! nat (bits ! k)"
    using Suc by simp
  also have "\<dots> = nat (2 * ?b + bits ! k)"
    using a b u by (rule trellis_edge)
  also have "?b = past_input bits (Suc k) 2"
    using past_input_Suc [of bits k 1] by (simp add: numeral_2_eq_2)
  also have "bits ! k = past_input bits (Suc k) 1"
    using Suc.prems(2) by (simp add: past_input_def)
  finally show ?case .
qed

lemma tstate_less: "set bits \<subseteq> {0, 1} \<Longrightarrow> k \<le> length bits \<Longrightarrow> tstate bits k < 4"
  using past_input_bit [of bits k 2] past_input_bit [of bits k 1]
  by (auto simp: tstate_window)

lemma coded_symbol:
  assumes bits: "set bits \<subseteq> {0, 1}" and k: "k < length bits"
  shows "conv_encode_7_5 bits ! (2 * k) = OUT_BITS ! tstate bits k ! nat (bits ! k) ! 0"
    and "conv_encode_7_5 bits ! (2 * k + 1) = OUT_BITS ! tstate bits k ! nat (bits ! k) ! 1"
proof -
  let ?a = "past_input bits k 2" and ?b = "past_input bits k 1"
  have a: "?a \<in> {0, 1}" and b: "?b \<in> {0, 1}"
    using bits by (rule past_input_bit)+
  have u: "bits ! k \<in> {0, 1}"
    using bits k by (rule bits_nth)
  have w: "window3 bits k = 4 * ?a + 2 * ?b + bits ! k"
    using k by (simp add: window3_def past_input_def)
  have st: "tstate bits k = nat (2 * ?a + ?b)"
    using bits k by (simp add: tstate_window)
  have kl: "k < length (enc_7_5 bits)"
    using k by (simp add: enc_7_5_length)
  have p: "conv_encode_7_5 bits ! (2 * k) = fst (spec_pair bits k)"
          "conv_encode_7_5 bits ! (2 * k + 1) = snd (spec_pair bits k)"
    using flat_pairs_nth [OF kl] by (simp_all add: conv_encode_enc [OF bits] enc_7_5_nth [OF bits k])
  show "conv_encode_7_5 bits ! (2 * k) = OUT_BITS ! tstate bits k ! nat (bits ! k) ! 0"
    unfolding st p using trellis_edge(2) [OF a b u] by (simp add: spec_pair_def w)
  show "conv_encode_7_5 bits ! (2 * k + 1) = OUT_BITS ! tstate bits k ! nat (bits ! k) ! 1"
    unfolding st p using trellis_edge(3) [OF a b u] by (simp add: spec_pair_def w)
qed

lemma tstate_after_tail:
  assumes "set B \<subseteq> {0, 1}"
  shows "tstate (add_tail B K) (length (add_tail B K)) = 0"
proof -
  have bits: "set (add_tail B K) \<subseteq> {0, 1}"
    using assms by (auto simp: add_tail_def K_def)
  have "past_input (add_tail B K) (length (add_tail B K)) 2 = 0"
       "past_input (add_tail B K) (length (add_tail B K)) 1 = 0"
    by (simp_all add: past_input_def add_tail_def K_def nth_append)
  then show ?thesis
    by (simp add: tstate_window [OF bits])
qed


section \<open>The metric rows along a transmitted path\<close>

lemma replicate4: "replicate 4 x = [x, x, x, x]"
  by (simp add: numeral_eq_Suc)

lemmas eval_defs = replicate4 all_steps_ok_def step_ok_def row_step_def row_visit_def row_relax_def
  seen_from_def blank_rows_def NUM_STATES_eq upt4 NEXT_STATE_eq OUT_BITS_eq INF_metric_def
  rows_clean_def rows_hit_def Let_def

lemma clean_to_clean: "all_steps_ok rows_clean rows_clean [(0, 0)]"
  by (simp add: eval_defs)

lemma clean_to_hit: "all_steps_ok rows_clean rows_hit [(1, 0), (0, 1)]"
  by (simp add: eval_defs)

lemma hit_to_hit: "all_steps_ok rows_hit rows_hit [(0, 0)]"
  by (simp add: eval_defs)

lemma less4: "s < 4 \<Longrightarrow> s \<in> set [0, 1, 2, 3::nat]"
  by auto

lemma less2: "u < 2 \<Longrightarrow> u \<in> set [0, 1::nat]"
  by auto

lemma all_steps_okD:
  "all_steps_ok source target es \<Longrightarrow> v \<in> set source \<Longrightarrow> s < 4 \<Longrightarrow> u < 2 \<Longrightarrow> e \<in> set es \<Longrightarrow>
   step_ok target v s u e"
  unfolding all_steps_ok_def list_all_iff using less4 less2 by blast

lemma step_okD:
  assumes "step_ok target v s u e"
    and "row_step (seen_from s v) (OUT_BITS ! s ! u ! 0 XOR fst e) (OUT_BITS ! s ! u ! 1 XOR snd e)
           blank_rows = (a, b, c)"
  shows "a \<in> set (map (seen_from (NEXT_STATE ! s ! u)) target)"
    and "b ! (NEXT_STATE ! s ! u) = int s" and "c ! (NEXT_STATE ! s ! u) = int u"
  using assms by (simp_all add: step_ok_def)

lemma tracked_step:
  assumes tr: "tracked h s row" and s: "s < 4" and u: "u < 2"
    and e: "e = (0, 0) \<or> (\<not> h \<and> e \<in> {(1, 0), (0, 1)})"
    and rs: "row_step row (OUT_BITS ! s ! u ! 0 XOR fst e) (OUT_BITS ! s ! u ! 1 XOR snd e)
               blank_rows = (a, b, c)"
  shows "tracked (h \<or> e \<noteq> (0, 0)) (NEXT_STATE ! s ! u) a \<and>
         b ! (NEXT_STATE ! s ! u) = int s \<and> c ! (NEXT_STATE ! s ! u) = int u"
proof -
  from tr obtain v where row: "row = seen_from s v"
    and v: "v \<in> set rows_clean \<or> (h \<and> v \<in> set rows_hit)"
    by (auto simp: tracked_def split: if_splits)
  note rs' = rs [unfolded row]
  from v e consider
      (cc) "v \<in> set rows_clean" "e = (0, 0)"
    | (ch) "v \<in> set rows_clean" "e \<in> {(1, 0), (0, 1)}" "e \<noteq> (0, 0)"
    | (hh) "v \<in> set rows_hit" "h" "e = (0, 0)"
    by auto
  then show ?thesis
  proof cases
    case cc
    have "step_ok rows_clean v s u e"
      using clean_to_clean cc(1) s u by (rule all_steps_okD) (simp add: cc)
    from step_okD [OF this rs'] show ?thesis
      by (auto simp: tracked_def)
  next
    case ch
    have "step_ok rows_hit v s u e"
      using clean_to_hit ch(1) s u by (rule all_steps_okD) (use ch in auto)
    from step_okD [OF this rs'] ch(3) show ?thesis
      by (auto simp: tracked_def)
  next
    case hh
    have "step_ok rows_hit v s u e"
      using hit_to_hit hh(1) s u by (rule all_steps_okD) (simp add: hh)
    from step_okD [OF this rs'] hh(2) show ?thesis
      by (auto simp: tracked_def)
  qed
qed

lemma tracked_start: "tracked False 0 (fst (row_seq rx 0))"
  by (simp add: tracked_def rows_clean_def seen_from_def NUM_STATES_eq replicate4)

lemma tracked_argmin: "tracked h 0 row \<Longrightarrow> argmin row = 0"
  by (auto simp: tracked_def rows_clean_def rows_hit_def seen_from_def argmin_def INF_metric_def
      split: if_splits)


lemma tracked_mono: "tracked False s row \<Longrightarrow> tracked h s row"
  by (auto simp: tracked_def)

lemma path_step:
  assumes bits: "set bits \<subseteq> {0, 1}" and sent: "sent_with bits j e rx"
    and k: "k < length bits"
    and tr: "tracked (j < k) (tstate bits k) (fst (row_seq rx k))"
  shows "tracked (j < Suc k) (tstate bits (Suc k)) (fst (row_seq rx (Suc k))) \<and>
         fst (snd (row_seq rx (Suc k))) ! tstate bits (Suc k) = int (tstate bits k) \<and>
         snd (snd (row_seq rx (Suc k))) ! tstate bits (Suc k) = bits ! k"
proof -
  let ?s = "tstate bits k" and ?u = "nat (bits ! k)"
  obtain a b c where abc: "row_seq rx (Suc k) = (a, b, c)"
    by (cases "row_seq rx (Suc k)")
  from sent k have r1: "rx ! (2 * k) = OUT_BITS ! ?s ! ?u ! 0 XOR fst (e k)"
    and r0: "rx ! (2 * k + 1) = OUT_BITS ! ?s ! ?u ! 1 XOR snd (e k)"
    and ek: "e k = (0, 0) \<or> (k = j \<and> e k \<in> {(1, 0), (0, 1)})"
    by (simp_all add: sent_with_def)
  have s: "?s < 4" using bits k by (intro tstate_less) simp_all
  have ub: "bits ! k \<in> {0, 1}" using bits k by (rule bits_nth)
  then have u: "?u < 2" and uu: "int ?u = bits ! k" by auto
  have e': "e k = (0, 0) \<or> (\<not> j < k \<and> e k \<in> {(1, 0), (0, 1)})"
    using ek by auto
  have rs: "row_step (fst (row_seq rx k)) (OUT_BITS ! ?s ! ?u ! 0 XOR fst (e k))
              (OUT_BITS ! ?s ! ?u ! 1 XOR snd (e k)) blank_rows = (a, b, c)"
    using abc [unfolded row_seq.simps r1 r0] .
  from tracked_step [OF tr s u e' rs]
  have t: "tracked (j < k \<or> e k \<noteq> (0, 0)) (NEXT_STATE ! ?s ! ?u) a"
    and b: "b ! (NEXT_STATE ! ?s ! ?u) = int ?s" and c: "c ! (NEXT_STATE ! ?s ! ?u) = int ?u"
    by simp_all
  have t': "tracked (j < Suc k) (NEXT_STATE ! ?s ! ?u) a"
  proof (cases "j < k \<or> e k \<noteq> (0, 0)")
    case True
    with ek have "j < Suc k" by auto
    with t True show ?thesis by simp
  next
    case False
    with t show ?thesis by (simp add: tracked_mono)
  qed
  have ns: "tstate bits (Suc k) = NEXT_STATE ! ?s ! ?u" by simp
  show ?thesis
    unfolding abc ns fst_conv snd_conv using t' b c uu by simp
qed

lemma path_tracked:
  assumes "set bits \<subseteq> {0, 1}" and "sent_with bits j e rx"
  shows "k \<le> length bits \<Longrightarrow> tracked (j < k) (tstate bits k) (fst (row_seq rx k))"
proof (induction k)
  case 0
  show ?case using tracked_start [of rx] by simp
next
  case (Suc k)
  then have "k < length bits" and "tracked (j < k) (tstate bits k) (fst (row_seq rx k))"
    by simp_all
  from path_step [OF assms this] show ?case by simp
qed

lemma decode_sent:
  assumes bits: "set bits \<subseteq> {0, 1}" and sent: "sent_with bits j e rx"
    and len: "num_pairs rx = length bits"
    and home: "tstate bits (length bits) = 0"
  shows "viterbi_decode_hard_7_5 rx = bits"
proof -
  have links: "fst (snd (row_seq rx t)) ! tstate bits t = int (tstate bits (t - 1)) \<and>
               snd (snd (row_seq rx t)) ! tstate bits t = bits ! (t - 1)"
    if "1 \<le> t" "t \<le> length bits" for t
  proof -
    from that obtain k where t: "t = Suc k" and k: "k < length bits"
      by (cases t) auto
    have "tracked (j < k) (tstate bits k) (fst (row_seq rx k))"
      using path_tracked [OF bits sent, of k] k by simp
    from path_step [OF bits sent k this] show ?thesis
      by (simp add: t)
  qed
  have "tracked (j < length bits) 0 (fst (row_seq rx (length bits)))"
    using path_tracked [OF bits sent, of "length bits"] home by simp
  then have final: "argmin (fst (row_seq rx (length bits))) = tstate bits (length bits)"
    by (simp add: tracked_argmin home)
  have "viterbi_decode_hard_7_5 rx = map (\<lambda>t. bits ! t) [0..<length bits]"
    using len [symmetric] links final by (rule decode_along_path)
  then show ?thesis by (simp add: map_nth)
qed

lemma tail_bits: "set B \<subseteq> {0, 1} \<Longrightarrow> set (add_tail B K) \<subseteq> {0, 1}"
  by (auto simp: add_tail_def K_def)

lemma num_pairs_coded: "num_pairs (conv_encode_7_5 bits) = length bits"
  by (simp add: num_pairs_def conv_encode_7_5_def conv_encode_length)

lemma sent_clean:
  "set bits \<subseteq> {0, 1} \<Longrightarrow> sent_with bits 0 (\<lambda>k. (0, 0)) (conv_encode_7_5 bits)"
  using coded_symbol [of bits] by (simp add: sent_with_def)

lemma decode_encode_tail:
  assumes "set B \<subseteq> {0, 1}"
  shows "viterbi_decode_hard_7_5 (conv_encode_7_5 (add_tail B K)) = add_tail B K"
  using tail_bits [OF assms] sent_clean [OF tail_bits [OF assms]] num_pairs_coded
    tstate_after_tail [OF assms]
  by (rule decode_sent)

lemma sent_flipped:
  assumes bits: "set bits \<subseteq> {0, 1}" and i: "i < length (conv_encode_7_5 bits)"
  shows "sent_with bits (i div 2)
           (\<lambda>k. if k = i div 2 then (if even i then (1, 0) else (0, 1)) else (0, 0))
           (flip_coded_bit i (conv_encode_7_5 bits))"
  unfolding sent_with_def
proof (intro allI impI)
  fix k assume k: "k < length bits"
  have l: "length (conv_encode_7_5 bits) = 2 * length bits"
    by (simp add: conv_encode_7_5_def conv_encode_length)
  have k2: "2 * k < length (conv_encode_7_5 bits)" "2 * k + 1 < length (conv_encode_7_5 bits)"
    using k l by simp_all
  have a: "flip_coded_bit i (conv_encode_7_5 bits) ! (2 * k) =
           conv_encode_7_5 bits ! (2 * k) XOR (if i = 2 * k then 1 else 0)"
    using k2 i by (simp add: flip_coded_bit_def nth_list_update)
  have b: "flip_coded_bit i (conv_encode_7_5 bits) ! (2 * k + 1) =
           conv_encode_7_5 bits ! (2 * k + 1) XOR (if i = 2 * k + 1 then 1 else 0)"
    using k2 i by (simp add: flip_coded_bit_def nth_list_update)
  have c: "(i = 2 * k) = (k = i div 2 \<and> even i)" "(i = 2 * k + 1) = (k = i div 2 \<and> odd i)"
    by presburger+
  show "flip_coded_bit i (conv_encode_7_5 bits) ! (2 * k) =
          OUT_BITS ! tstate bits k ! nat (bits ! k) ! 0 XOR
          fst (if k = i div 2 then if even i then (1, 0) else (0, 1) else (0, 0)) \<and>
        flip_coded_bit i (conv_encode_7_5 bits) ! (2 * k + 1) =
          OUT_BITS ! tstate bits k ! nat (bits ! k) ! 1 XOR
          snd (if k = i div 2 then if even i then (1, 0) else (0, 1) else (0, 0)) \<and>
        ((if k = i div 2 then if even i then (1, 0) else (0, 1) else (0, 0)) = (0, 0) \<or>
         k = i div 2 \<and>
         (if k = i div 2 then if even i then (1, 0) else (0, 1) else (0, 0)) \<in> {(1, 0), (0, 1)})"
    unfolding a b c coded_symbol [OF bits k, symmetric] by auto
qed

lemma decode_flipped_tail:
  assumes "set B \<subseteq> {0, 1}" and "i < length (conv_encode_7_5 (add_tail B K))"
  shows "viterbi_decode_hard_7_5 (flip_coded_bit i (conv_encode_7_5 (add_tail B K))) = add_tail B K"
proof -
  have "num_pairs (flip_coded_bit i (conv_encode_7_5 (add_tail B K))) = length (add_tail B K)"
    using num_pairs_coded [of "add_tail B K"] by (simp add: num_pairs_def flip_coded_bit_def)
  with tail_bits [OF assms(1)] sent_flipped [OF tail_bits [OF assms(1)] assms(2)]
  show ?thesis
    using tstate_after_tail [OF assms(1)] by (rule decode_sent)
qed

section \<open>Round trip and single-error correction\<close>

text \<open>
  C1. For every bit sequence \<open>B\<close>, appending the tail of \<open>K - 1 = 2\<close> zeros, encoding
  with \<open>conv_encode_7_5\<close> and decoding the unchanged coded sequence with
  \<open>viterbi_decode_hard_7_5\<close> gives back \<open>B\<close> in the first \<open>len(B)\<close> decoded bits.
\<close>

theorem noiseless_round_trip:
  assumes "set B \<subseteq> {0, 1}"
  shows "take (length B) (viterbi_decode_hard_7_5 (conv_encode_7_5 (add_tail B K))) = B"
  using decode_encode_tail [OF assms] by (simp add: add_tail_def)

theorem noiseless_round_trip_witness:
  "set [1, 1, 0, 1, 1] \<subseteq> {0, 1::int} \<and>
   take (length [1, 1, 0, 1, 1::int])
     (viterbi_decode_hard_7_5 (conv_encode_7_5 (add_tail [1, 1, 0, 1, 1] K))) = [1, 1, 0, 1, 1]"
  using noiseless_round_trip [of "[1, 1, 0, 1, 1]"] by simp

text \<open>
  C2. For every payload \<open>B\<close> of bits and every position \<open>i\<close> of the flat coded sequence
  \<open>conv_encode_7_5(add_tail(B))\<close>, decoding the coded sequence with the one bit at
  position \<open>i\<close> flipped still gives \<open>B\<close> in the first \<open>len(B)\<close> decoded bits.
\<close>

theorem single_flip_corrected:
  assumes "set B \<subseteq> {0, 1}" and "i < length (conv_encode_7_5 (add_tail B K))"
  shows "take (length B)
           (viterbi_decode_hard_7_5 (flip_coded_bit i (conv_encode_7_5 (add_tail B K)))) = B"
  using decode_flipped_tail [OF assms] by (simp add: add_tail_def)

theorem single_flip_corrected_witness:
  "set [1, 1, 0, 1, 1] \<subseteq> {0, 1::int} \<and>
   6 < length (conv_encode_7_5 (add_tail [1, 1, 0, 1, 1] K)) \<and>
   take (length [1, 1, 0, 1, 1::int])
     (viterbi_decode_hard_7_5 (flip_coded_bit 6 (conv_encode_7_5 (add_tail [1, 1, 0, 1, 1] K))))
     = [1, 1, 0, 1, 1]"
proof -
  have l: "6 < length (conv_encode_7_5 (add_tail [1, 1, 0, 1, 1] K))"
    by (simp only: conv_encode_7_5_def conv_encode_length) (simp add: add_tail_def K_def)
  show ?thesis
    using l single_flip_corrected [of "[1, 1, 0, 1, 1]" 6] by simp
qed

section \<open>The bit-flip channel\<close>

lemma draw_not_below: "p \<le> 0 \<Longrightarrow> \<not> Rep_unit_draw d < p"
  using Rep_unit_draw [of d] by simp

lemma flip_bit_off: "p \<le> 0 \<Longrightarrow> flip_bit_rng b p g = (b, stl g)"
  by (simp add: flip_bit_rng_def rng_random_def draw_not_below)

lemma flip_channel_off: "p \<le> 0 \<Longrightarrow> fst (flip_channel coded p g) = coded"
proof (induction coded arbitrary: g)
  case Nil
  show ?case by simp
next
  case (Cons sym coded)
  obtain v1 v0 where sym: "sym = (v1, v0)" by (cases sym)
  from Cons.IH [OF Cons.prems, of "stl (stl g)"] show ?case
    by (auto simp: sym flip_bit_off [OF Cons.prems] split: prod.splits)
qed

text \<open>
  C9. With flip probability \<open>p = 0\<close> the channel is the identity: for every bit \<open>b\<close>
  and every generator state, \<open>flip_bit(b, 0, rng)\<close> returns \<open>b\<close>, and the noisy symbol
  sequence of the sweep equals the coded one.
\<close>

theorem zero_flip_identity:
  "fst (flip_bit_rng b 0 g) = b \<and> fst (flip_channel coded 0 g) = coded"
  by (simp add: flip_bit_off flip_channel_off)

text \<open>
  C7, as the claim states it, fails: with the negative probability \<open>-1/2\<close>,
  \<open>flip_bit\<close> raises nothing and returns the bit unchanged, exactly as it does for
  \<open>p = 0\<close>.
\<close>

theorem negative_p_not_rejected:
  "flip_bit_rng 1 (- 1 / 2) (sconst (Abs_unit_draw 0)) = (1, sconst (Abs_unit_draw 0)) \<and>
   flip_bit_rng 1 (- 1 / 2) (sconst (Abs_unit_draw 0)) = flip_bit_rng 1 0 (sconst (Abs_unit_draw 0))"
  by (simp add: flip_bit_off)

text \<open>
  C7, amended. \<open>flip_bit\<close> has no validation of \<open>p\<close>: for every bit \<open>b\<close>, every
  \<open>p < 0\<close> and every generator state it consumes one draw and returns \<open>b\<close>
  unchanged, the same result as for \<open>p = 0\<close>.
\<close>

theorem negative_p_acts_as_zero:
  assumes "p < 0"
  shows "flip_bit_rng b p g = (b, stl g) \<and> flip_bit_rng b p g = flip_bit_rng b 0 g"
  using assms by (simp add: flip_bit_off)

theorem negative_p_acts_as_zero_witness:
  "(- 1 / 2 :: real) < 0 \<and>
   flip_bit_rng 1 (- 1 / 2) (sconst (Abs_unit_draw 0)) = (1, stl (sconst (Abs_unit_draw 0))) \<and>
   flip_bit_rng 1 (- 1 / 2) (sconst (Abs_unit_draw 0)) = flip_bit_rng 1 0 (sconst (Abs_unit_draw 0))"
  using negative_p_acts_as_zero [of "- 1 / 2" 1 "sconst (Abs_unit_draw 0)"]
  by (simp add: flip_bit_off)

section \<open>Comparing decoded bits with the payload\<close>

text \<open>
  C6, as the claim states it, fails in the calibration pass: with no decided bit for a
  payload of two bits, \<open>_one_pass_errors\<close> raises nothing and reports two bit errors.
\<close>

theorem calibration_shortfall_counted:
  "one_pass_compare [] [1, 0] = (2, 0)"
  by (simp add: one_pass_compare_def py_suffix_def)

text \<open>
  C6, amended. When a decode yields fewer decided bits than the payload length, a sweep
  trial of \<open>test_ber_sweep\<close> fails with the exception and no error count, whereas the
  calibration pass \<open>_one_pass_errors\<close> raises nothing and reports every payload bit as
  an error, together with the number of bits it got.
\<close>

theorem shortfall_handling:
  assumes "length decided < n"
  shows "trial_compare n decided payload = Inl (Not_enough_decided_bits (length decided) n) \<and>
         (length payload = n \<longrightarrow> one_pass_compare decided payload = (n, length decided))"
  using assms by (auto simp: trial_compare_def one_pass_compare_def py_suffix_def Let_def)

theorem shortfall_handling_witness:
  "length [1::int] < 2 \<and>
   trial_compare 2 [1] [1, 0] = Inl (Not_enough_decided_bits (length [1::int]) 2) \<and>
   length [1, 0::int] = 2 \<and> one_pass_compare [1] [1, 0] = (2, 1)"
  using shortfall_handling [of "[1]" 2 "[1, 0]"] by simp


text \<open>
  The slice of the last bits does not by itself remove tail decisions: on a stream that
  is aligned with the input, as the software decoder's is, it keeps them and drops a
  payload decision instead. Which decisions the hardware harness compares therefore
  depends on the latency of the device that produces the stream.
\<close>

lemma last_slice_of_aligned_stream:
  "trial_compare 1 (viterbi_decode_hard_7_5 (conv_encode_7_5 (add_tail [1] K))) [1] = Inr 1"
proof -
  have "viterbi_decode_hard_7_5 (conv_encode_7_5 (add_tail [1] K)) = [1, 0, 0]"
    using decode_encode_tail [of "[1]"] by (simp add: add_tail_def K_def numeral_2_eq_2)
  then show ?thesis
    by (simp add: trial_compare_def py_suffix_def count_errors_def)
qed





section \<open>What one time step stores for a state\<close>

lemma keep_less_fold:
  "fold (keep_less f g) cs (m0, x0) = (m, x) \<Longrightarrow>
   m \<le> m0 \<and> (\<forall>c\<in>set cs. m \<le> f c) \<and>
   ((m = m0 \<and> x = x0) \<or>
    (\<exists>i<length cs. m = f (cs ! i) \<and> x = g (cs ! i) \<and> m < m0 \<and> (\<forall>j<i. m < f (cs ! j))))"
proof (induction cs arbitrary: m x rule: rev_induct)
  case Nil
  then show ?case by simp
next
  case (snoc c cs)
  obtain m' x' where acc: "fold (keep_less f g) cs (m0, x0) = (m', x')"
    by (cases "fold (keep_less f g) cs (m0, x0)")
  note ih = snoc.IH [OF acc]
  from snoc.prems have res: "(m, x) = keep_less f g c (m', x')"
    by (simp add: acc)
  show ?case
  proof (cases "f c < m'")
    case True
    with res have mx: "m = f c" "x = g c" by (simp_all add: keep_less_def)
    have "\<forall>j<length cs. m < f (cs ! j)"
      using ih True mx by (metis less_le_trans nth_mem)
    then have "\<forall>j<length cs. m < f ((cs @ [c]) ! j)"
      by (simp add: nth_append)
    moreover have "m = f ((cs @ [c]) ! length cs)" "x = g ((cs @ [c]) ! length cs)"
      using mx by simp_all
    moreover have "m < m0" "\<forall>d\<in>set (cs @ [c]). m \<le> f d"
      using ih True mx by auto
    ultimately show ?thesis
      by (metis length_append_singleton less_Suc_eq less_imp_le)
  next
    case False
    with res have mx: "m = m'" "x = x'" by (simp_all add: keep_less_def)
    from ih have "(m' = m0 \<and> x' = x0) \<or>
      (\<exists>i<length (cs @ [c]). m' = f ((cs @ [c]) ! i) \<and> x' = g ((cs @ [c]) ! i) \<and> m' < m0 \<and>
         (\<forall>j<i. m' < f ((cs @ [c]) ! j)))"
      by (auto simp: nth_append less_Suc_eq)
    with ih False show ?thesis
      unfolding mx by auto
  qed
qed

lemma rows_len_relax: "rows_len n rw \<Longrightarrow> rows_len n (row_relax pmt r1 r0 s u rw)"
  by (cases rw) (simp add: rows_len_def row_relax_def Let_def)

lemma entry_relax:
  assumes "rows_len n rw" and "ns < n"
  shows "entry ns (row_relax pmt r1 r0 s u rw) =
         (if NEXT_STATE ! s ! u = ns
          then keep_less (cand_metric pmt r1 r0) stored_pair (s, u) (entry ns rw)
          else entry ns rw)"
  using assms
  by (cases rw)
     (auto simp: rows_len_def row_relax_def entry_def keep_less_def cand_metric_def stored_pair_def
        Let_def)

lemma entry_fold_relax:
  assumes "rows_len n rw" and "ns < n"
  shows "entry ns (fold (\<lambda>c. row_relax pmt r1 r0 (fst c) (snd c)) cs rw) =
         fold (keep_less (cand_metric pmt r1 r0) stored_pair)
           (filter (\<lambda>(s, u). NEXT_STATE ! s ! u = ns) cs) (entry ns rw)"
  using assms(1)
proof (induction cs arbitrary: rw)
  case Nil
  show ?case by simp
next
  case (Cons c cs)
  obtain s u where c: "c = (s, u)" by (cases c)
  have l: "rows_len n (row_relax pmt r1 r0 s u rw)"
    using Cons.prems by (rule rows_len_relax)
  show ?case
    using Cons.IH [OF l] entry_relax [OF Cons.prems assms(2), of pmt r1 r0 s u]
    by (simp add: c)
qed

lemma row_step_flat:
  "row_step pmt r1 r0 rw =
   fold (\<lambda>c. row_relax pmt r1 r0 (fst c) (snd c))
     (filter (\<lambda>(s, u). pmt ! s < INF_metric) visit_order) rw"
  by (simp add: row_step_def row_visit_def visit_order_def NUM_STATES_eq upt4 not_less)

lemma blank_rows_len: "rows_len 4 blank_rows"
  by (simp add: rows_len_def blank_rows_def NUM_STATES_eq)

lemma entry_blank: "ns < 4 \<Longrightarrow> entry ns blank_rows = (INF_metric, - 1, - 1)"
  by (simp add: entry_def blank_rows_def NUM_STATES_eq)

lemma entry_row_step:
  assumes "ns < 4"
  shows "entry ns (row_step pmt r1 r0 blank_rows) =
         fold (keep_less (cand_metric pmt r1 r0) stored_pair) (candidates pmt ns)
           (INF_metric, - 1, - 1)"
proof -
  have "filter (\<lambda>(s, u). NEXT_STATE ! s ! u = ns) (filter (\<lambda>(s, u). pmt ! s < INF_metric) visit_order)
        = candidates pmt ns"
    by (auto simp: candidates_def intro: filter_cong)
  then show ?thesis
    using entry_fold_relax [OF blank_rows_len assms, of pmt r1 r0
        "filter (\<lambda>(s, u). pmt ! s < INF_metric) visit_order"]
    by (simp add: row_step_flat entry_blank [OF assms])
qed

section \<open>The deterministic tie-break\<close>

text \<open>The rows of the finished tables are the rows computed step by step.\<close>

lemma forward_rows_split:
  assumes "forward_pass rx T = (pm, prev, prev_u)" and "j \<le> T"
  shows "row_seq rx j = (pm ! j, prev ! j, prev_u ! j)"
  using forward_pass_rows [OF assms(2), of rx] by (simp add: assms(1) rows_at_def)

lemma stored_entry:
  assumes fp: "forward_pass rx T = (pm, prev, prev_u)" and t: "t < T" and ns: "ns < 4"
  shows "fold (keep_less (cand_metric (pm ! t) (rx ! (2 * t)) (rx ! (2 * t + 1))) stored_pair)
           (candidates (pm ! t) ns) (INF_metric, - 1, - 1) =
         (pm ! (t + 1) ! ns, prev ! (t + 1) ! ns, prev_u ! (t + 1) ! ns)"
proof -
  have a: "fst (row_seq rx t) = pm ! t"
    using forward_rows_split [OF fp, of t] t by simp
  have "row_seq rx (Suc t) = (pm ! (t + 1), prev ! (t + 1), prev_u ! (t + 1))"
    using forward_rows_split [OF fp, of "Suc t"] t by simp
  then have "row_step (pm ! t) (rx ! (2 * t)) (rx ! (2 * t + 1)) blank_rows =
             (pm ! (t + 1), prev ! (t + 1), prev_u ! (t + 1))"
    unfolding row_seq.simps a .
  then have "entry ns (row_step (pm ! t) (rx ! (2 * t)) (rx ! (2 * t + 1)) blank_rows) =
             (pm ! (t + 1) ! ns, prev ! (t + 1) ! ns, prev_u ! (t + 1) ! ns)"
    by (simp add: entry_def)
  then show ?thesis
    by (simp only: entry_row_step [OF ns])
qed

text \<open>
  C3. In the tables that the forward pass of \<open>viterbi_decode_hard_7_5\<close> leaves, for
  every time step \<open>t\<close> and every next state \<open>ns\<close>: the stored metric \<open>pm[t+1][ns]\<close> is
  at most the sentinel and at most every candidate \<open>pm[t][s] + bm\<close> offered to \<open>ns\<close>;
  either nothing was stored (the sentinel and the provenance \<open>-1\<close> remain), or the
  stored metric and the provenance \<open>prev\<close>, \<open>prev_u\<close> are those of one candidate
  \<open>(s, u)\<close> that is below the sentinel and strictly below every candidate visited before
  it, in the order of ascending \<open>s\<close> with bit 0 before bit 1. So among equal candidates
  the one computed first is recorded.
\<close>

theorem strict_update_tie_break:
  assumes "set rx \<subseteq> {0, 1}"
    and "forward_pass rx (num_pairs rx) = (pm, prev, prev_u)"
    and "t < num_pairs rx" and "ns < NUM_STATES"
  shows "pm ! (t + 1) ! ns \<le> INF_metric \<and>
         (\<forall>c\<in>set (candidates (pm ! t) ns).
            pm ! (t + 1) ! ns \<le> cand_metric (pm ! t) (rx ! (2 * t)) (rx ! (2 * t + 1)) c) \<and>
         ((pm ! (t + 1) ! ns = INF_metric \<and> prev ! (t + 1) ! ns = - 1 \<and>
           prev_u ! (t + 1) ! ns = - 1) \<or>
          (\<exists>i<length (candidates (pm ! t) ns).
             pm ! (t + 1) ! ns =
               cand_metric (pm ! t) (rx ! (2 * t)) (rx ! (2 * t + 1)) (candidates (pm ! t) ns ! i) \<and>
             prev ! (t + 1) ! ns = int (fst (candidates (pm ! t) ns ! i)) \<and>
             prev_u ! (t + 1) ! ns = int (snd (candidates (pm ! t) ns ! i)) \<and>
             pm ! (t + 1) ! ns < INF_metric \<and>
             (\<forall>j<i. pm ! (t + 1) ! ns <
                cand_metric (pm ! t) (rx ! (2 * t)) (rx ! (2 * t + 1)) (candidates (pm ! t) ns ! j))))"
proof -
  have ns: "ns < 4" using assms(4) by (simp add: NUM_STATES_eq)
  from keep_less_fold [OF stored_entry [OF assms(2,3) ns]]
  show ?thesis
    by (simp add: stored_pair_def)
qed

lemma forward_example:
  "forward_pass [0, 0, 0, 0, 0, 1, 0, 0] 4 =
     ([[0, INF_metric, INF_metric, INF_metric], [0, 2, INF_metric, INF_metric], [0, 2, 3, 3],
       [1, 1, 3, 2], [1, 3, 2, 2]],
      [[- 1, - 1, - 1, - 1], [0, 0, - 1, - 1], [0, 0, 1, 1], [0, 0, 3, 1], [0, 0, 1, 1]],
      [[- 1, - 1, - 1, - 1], [0, 1, - 1, - 1], [0, 1, 0, 1], [0, 1, 0, 1], [0, 1, 0, 1]])"
  by (simp add: forward_pass_def time_step_def visit_state_def relax_def init_tables_def upd2_def
      NUM_STATES_eq upt4 NEXT_STATE_eq OUT_BITS_eq INF_metric_def Let_def replicate4
      numeral_eq_Suc)


theorem strict_update_tie_break_witness:
  "set [0, 0, 0, 0, 0, 1, 0, 0] \<subseteq> {0, 1::int} \<and>
   forward_pass [0, 0, 0, 0, 0, 1, 0, 0] (num_pairs [0, 0, 0, 0, 0, 1, 0, 0]) =
     ([[0, INF_metric, INF_metric, INF_metric], [0, 2, INF_metric, INF_metric], [0, 2, 3, 3],
       [1, 1, 3, 2], [1, 3, 2, 2]],
      [[- 1, - 1, - 1, - 1], [0, 0, - 1, - 1], [0, 0, 1, 1], [0, 0, 3, 1], [0, 0, 1, 1]],
      [[- 1, - 1, - 1, - 1], [0, 1, - 1, - 1], [0, 1, 0, 1], [0, 1, 0, 1], [0, 1, 0, 1]]) \<and>
   3 < num_pairs [0, 0, 0, 0, 0, 1, 0, 0] \<and> 1 < NUM_STATES \<and>
   candidates [1, 1, 3, 2] 1 = [(0, 1), (2, 1)] \<and>
   cand_metric [1, 1, 3, 2] 0 0 (0, 1) = 3 \<and> cand_metric [1, 1, 3, 2] 0 0 (2, 1) = 3"
proof -
  have n: "num_pairs [0, 0, 0, 0, 0, 1, 0, 0] = 4"
    by (simp add: num_pairs_def)
  have b: "set [0, 0, 0, 0, 0, 1, 0, 0] \<subseteq> {0, 1::int}" by simp
  have t: "3 < num_pairs [0, 0, 0, 0, 0, 1, 0, 0]" by (simp add: n)
  have s: "1 < NUM_STATES" by (simp add: NUM_STATES_eq)
  have c: "candidates [1, 1, 3, 2] 1 = [(0, 1), (2, 1)]"
    by (simp add: candidates_def visit_order_def NUM_STATES_eq upt4 NEXT_STATE_eq INF_metric_def)
  have m: "cand_metric [1, 1, 3, 2] 0 0 (0, 1) = 3" "cand_metric [1, 1, 3, 2] 0 0 (2, 1) = 3"
    by (simp_all add: cand_metric_def OUT_BITS_eq)
  note f = forward_example [folded n]
  from strict_update_tie_break [OF b f t s] b f t s c m show ?thesis
    by (simp only: simp_thms)
qed

section \<open>The sentinel and the largest metric\<close>

lemma visit_order_eq:
  "visit_order = [(0, 0), (0, 1), (1, 0), (1, 1), (2, 0), (2, 1), (3, 0), (3, 1)]"
  by (simp add: visit_order_def NUM_STATES_eq upt4)

lemma branch_metric_range:
  assumes "c \<in> set visit_order" and "r1 \<in> {0, 1}" and "r0 \<in> {0, 1}"
  shows "0 \<le> (OUT_BITS ! fst c ! snd c ! 0 XOR r1) + (OUT_BITS ! fst c ! snd c ! 1 XOR r0) \<and>
         (OUT_BITS ! fst c ! snd c ! 0 XOR r1) + (OUT_BITS ! fst c ! snd c ! 1 XOR r0) \<le> 2"
  using assms by (auto simp: visit_order_eq OUT_BITS_eq)

lemma row_step_bounded:
  assumes pmt: "row_bounded B pmt" and r: "r1 \<in> {0, 1}" "r0 \<in> {0, 1}"
  shows "row_bounded (B + 2) (fst (row_step pmt r1 r0 blank_rows))"
  unfolding row_bounded_def
proof (intro allI impI)
  fix ns :: nat assume ns: "ns < 4"
  obtain a b c where abc: "row_step pmt r1 r0 blank_rows = (a, b, c)"
    by (cases "row_step pmt r1 r0 blank_rows")
  have "fold (keep_less (cand_metric pmt r1 r0) stored_pair) (candidates pmt ns)
          (INF_metric, - 1, - 1) = (a ! ns, b ! ns, c ! ns)"
    using entry_row_step [OF ns, of pmt r1 r0] by (simp add: abc entry_def)
  from keep_less_fold [OF this]
  consider "a ! ns = INF_metric"
    | i where "i < length (candidates pmt ns)"
        "a ! ns = cand_metric pmt r1 r0 (candidates pmt ns ! i)"
    by auto
  then have "a ! ns = INF_metric \<or> (0 \<le> a ! ns \<and> a ! ns \<le> B + 2)"
  proof cases
    case 1
    then show ?thesis by simp
  next
    case 2
    let ?c = "candidates pmt ns ! i"
    have mem: "?c \<in> set (candidates pmt ns)"
      using 2(1) by (rule nth_mem)
    then have vo: "?c \<in> set visit_order" and live: "pmt ! fst ?c < INF_metric"
      by (auto simp: candidates_def)
    from vo have "fst ?c < 4" by (auto simp: visit_order_eq)
    with pmt live have p: "0 \<le> pmt ! fst ?c \<and> pmt ! fst ?c \<le> B"
      by (auto simp: row_bounded_def)
    from branch_metric_range [OF vo r] p 2(2) show ?thesis
      by (simp add: cand_metric_def case_prod_unfold)
  qed
  then show "fst (row_step pmt r1 r0 blank_rows) ! ns = INF_metric \<or>
             (0 \<le> fst (row_step pmt r1 r0 blank_rows) ! ns \<and>
              fst (row_step pmt r1 r0 blank_rows) ! ns \<le> B + 2)"
    by (simp add: abc)
qed

lemma row_seq_bounded:
  assumes "set rx \<subseteq> {0, 1}"
  shows "t \<le> num_pairs rx \<Longrightarrow> row_bounded (2 * int t) (fst (row_seq rx t))"
proof (induction t)
  case 0
  show ?case
    by (simp add: row_bounded_def NUM_STATES_eq replicate4 nth_Cons split: nat.splits)
next
  case (Suc t)
  then have t: "2 * t < length rx" "2 * t + 1 < length rx"
    by (simp_all add: num_pairs_def)
  have r: "rx ! (2 * t) \<in> {0, 1}" "rx ! (2 * t + 1) \<in> {0, 1}"
    using bits_nth [OF assms t(1)] bits_nth [OF assms t(2)] .
  have "row_bounded (2 * int t) (fst (row_seq rx t))"
    using Suc by simp
  from row_step_bounded [OF this r] show ?case
    by (simp add: algebra_simps)
qed


lemma forward_short_example:
  "forward_pass [1, 1, 0, 1] 2 =
     ([[0, INF_metric, INF_metric, INF_metric], [2, 0, INF_metric, INF_metric], [3, 3, 2, 0]],
      [[- 1, - 1, - 1, - 1], [0, 0, - 1, - 1], [0, 0, 1, 1]],
      [[- 1, - 1, - 1, - 1], [0, 1, - 1, - 1], [0, 1, 0, 1]])"
  by (simp add: forward_pass_def time_step_def visit_state_def relax_def init_tables_def upd2_def
      NUM_STATES_eq upt4 NEXT_STATE_eq OUT_BITS_eq INF_metric_def Let_def replicate4
      numeral_eq_Suc)

text \<open>
  C8, as the claim states it, fails: the sentinel is the constant \<open>10**9\<close>, and for a
  received sequence of \<open>10**9\<close> bits the number of pairs is \<open>T = 5 * 10**8\<close>, so that
  \<open>INF > 2 * T\<close> does not hold.
\<close>

theorem sentinel_not_above_2T:
  "\<not> 2 * int (num_pairs (replicate 1000000000 (0::int))) < INF_metric"
  by (simp add: num_pairs_def INF_metric_def)

text \<open>
  C8, amended. For every received sequence of fewer than \<open>10**9\<close> bits, with \<open>T\<close> the
  number of symbol pairs, the sentinel exceeds \<open>2 * T\<close>; and every entry \<open>pm[t][s]\<close> of
  the path-metric table is either the sentinel or an accumulated distance between 0 and
  \<open>2 * t\<close>, which is strictly below the sentinel.
\<close>

theorem sentinel_above_metrics:
  assumes "set rx \<subseteq> {0, 1}" and "length rx < 10 ^ 9"
    and "forward_pass rx (num_pairs rx) = (pm, prev, prev_u)"
    and "t \<le> num_pairs rx" and "s < NUM_STATES"
  shows "2 * int (num_pairs rx) < INF_metric \<and>
         (pm ! t ! s = INF_metric \<or>
          (0 \<le> pm ! t ! s \<and> pm ! t ! s \<le> 2 * int t \<and> pm ! t ! s < INF_metric))"
proof -
  have T: "2 * int (num_pairs rx) < INF_metric"
    using assms(2) by (simp add: num_pairs_def INF_metric_def)
  have "row_bounded (2 * int t) (fst (row_seq rx t))"
    using assms(1,4) by (rule row_seq_bounded)
  moreover have "fst (row_seq rx t) = pm ! t"
    using forward_rows_split [OF assms(3,4)] by simp
  moreover have "s < 4"
    using assms(5) by (simp add: NUM_STATES_eq)
  ultimately have "pm ! t ! s = INF_metric \<or> (0 \<le> pm ! t ! s \<and> pm ! t ! s \<le> 2 * int t)"
    by (simp add: row_bounded_def)
  moreover have "2 * int t \<le> 2 * int (num_pairs rx)"
    using assms(4) by simp
  ultimately show ?thesis
    using T by auto
qed

theorem sentinel_above_metrics_witness:
  "set [1, 1, 0, 1] \<subseteq> {0, 1::int} \<and> length [1, 1, 0, 1::int] < 10 ^ 9 \<and>
   forward_pass [1, 1, 0, 1] (num_pairs [1, 1, 0, 1]) =
     ([[0, INF_metric, INF_metric, INF_metric], [2, 0, INF_metric, INF_metric], [3, 3, 2, 0]],
      [[- 1, - 1, - 1, - 1], [0, 0, - 1, - 1], [0, 0, 1, 1]],
      [[- 1, - 1, - 1, - 1], [0, 1, - 1, - 1], [0, 1, 0, 1]]) \<and>
   2 \<le> num_pairs [1, 1, 0, 1] \<and> 0 < NUM_STATES \<and>
   2 * int (num_pairs [1, 1, 0, 1]) < INF_metric \<and> (3::int) \<le> 2 * int 2 \<and> (3::int) < INF_metric"
proof -
  have n: "num_pairs [1, 1, 0, 1] = 2"
    by (simp add: num_pairs_def)
  have b: "set [1, 1, 0, 1] \<subseteq> {0, 1::int}" and l: "length [1, 1, 0, 1::int] < 10 ^ 9"
    by simp_all
  have t: "2 \<le> num_pairs [1, 1, 0, 1]" by (simp add: n)
  have s: "0 < NUM_STATES" by (simp add: NUM_STATES_eq)
  note f = forward_short_example [folded n]
  from sentinel_above_metrics [OF b l f t s] b l f t s show ?thesis
    by (simp add: INF_metric_def)
qed

end
